theory Spec2Isabelle
  imports Main "HOL-Library.Sublist"
begin

unbundle bit_operations_syntax

section \<open>The Vigenere cipher of vigenere.c\<close>

text \<open>
  A shallow embedding of \<^verbatim>\<open>vigenere.c\<close>. A C string is modelled by the list of its
  characters before the terminating NUL, so \<^verbatim>\<open>strlen\<close> is \<^const>\<open>length\<close> and the
  character read at index \<^verbatim>\<open>strlen\<close> is the terminator. A \<^verbatim>\<open>char\<close> is a signed
  byte, as with the two compilers the README builds with: read in an expression it
  is an \<^typ>\<open>int\<close> from -128 to 127, the ASCII code for an ASCII character. A value
  stored into a \<^verbatim>\<open>char\<close> keeps its low eight bits (\<^const>\<open>char_of\<close>). The loop
  counters are \<^verbatim>\<open>int\<close>s that stay below the length of a command-line argument, so
  they are unbounded integers here.
\<close>

subsection \<open>Constants and types\<close>

definition CHAR_SPACE :: int where
  "CHAR_SPACE = 26"

definition ASCII_HIGHER_OFFSET :: int where
  "ASCII_HIGHER_OFFSET = of_char CHR ''A''"

definition ASCII_LOWER_OFFSET :: int where
  "ASCII_LOWER_OFFSET = ASCII_HIGHER_OFFSET XOR 0x20"

definition EXIT_SUCCESS :: int where
  "EXIT_SUCCESS = 0"

definition EXIT_FAILURE :: int where
  "EXIT_FAILURE = 1"

datatype modes = Encrypt | Decrypt

datatype docs = Help | Usage

record config =
  option :: modes
  message :: string
  output_str :: string
  key :: string
  keystream :: string

text \<open>What a run of the process leaves behind: both streams and the exit status.\<close>

record run =
  stdout :: string
  stderr :: string
  status :: int

text \<open>
  The one undefined operation the program can reach: the remainder by a key length
  of zero in \<^verbatim>\<open>generate_keystream\<close>.
\<close>

datatype fault = DivisionByZero

subsection \<open>The C library functions the program calls\<close>

text \<open>
  The value of a \<^verbatim>\<open>char\<close> in an expression: a byte from \<open>0x80\<close> on is negative.
  The character tests below are those of the C locale; they hold of no negative
  value, and \<^verbatim>\<open>toupper\<close> leaves such a value as it is.
\<close>

definition char_val :: "char \<Rightarrow> int" where
  "char_val c = (if of_char c < (128::int) then of_char c else of_char c - 256)"

text \<open>The value of a character as \<^verbatim>\<open>unsigned char\<close>, which \<^verbatim>\<open>strncmp\<close> compares.\<close>

definition uchar_val :: "char \<Rightarrow> int" where
  "uchar_val c = of_char c"

definition isupper :: "int \<Rightarrow> bool" where
  "isupper c \<longleftrightarrow> 65 \<le> c \<and> c \<le> 90"

definition islower :: "int \<Rightarrow> bool" where
  "islower c \<longleftrightarrow> 97 \<le> c \<and> c \<le> 122"

definition isalpha :: "int \<Rightarrow> bool" where
  "isalpha c \<longleftrightarrow> isupper c \<or> islower c"

definition isdigit :: "int \<Rightarrow> bool" where
  "isdigit c \<longleftrightarrow> 48 \<le> c \<and> c \<le> 57"

definition toupper :: "int \<Rightarrow> int" where
  "toupper c = (if islower c then c - 32 else c)"

text \<open>The operator \<^verbatim>\<open>%\<close> of C on \<^verbatim>\<open>int\<close>: the quotient is truncated towards zero.\<close>

definition c_rem :: "int \<Rightarrow> int \<Rightarrow> int" where
  "c_rem a b = a - b * (sgn a * sgn b * (\<bar>a\<bar> div \<bar>b\<bar>))"

definition strlen :: "string \<Rightarrow> nat" where
  "strlen s = length s"

text \<open>
  \<^verbatim>\<open>strncmp\<close> compares at most \<open>n\<close> characters and stops at the first difference or
  at the end of both strings; the end of one string is its terminator, code 0.
\<close>

fun strncmp :: "string \<Rightarrow> string \<Rightarrow> nat \<Rightarrow> int" where
  "strncmp s1 s2 0 = 0"
| "strncmp [] [] (Suc n) = 0"
| "strncmp [] (b # s2) (Suc n) = - uchar_val b"
| "strncmp (a # s1) [] (Suc n) = uchar_val a"
| "strncmp (a # s1) (b # s2) (Suc n) =
     (if a = b then strncmp s1 s2 n else uchar_val a - uchar_val b)"

text \<open>\<^verbatim>\<open>s[0]\<close>: the first character of a string, the terminator when it is empty.\<close>

definition first_char :: "string \<Rightarrow> char" where
  "first_char s = (case s of [] \<Rightarrow> CHR 0x00 | c # _ \<Rightarrow> c)"

subsection \<open>Usage and help\<close>

definition newline :: char where
  "newline = CHR 0x0A"

definition usage_str :: string where
  \<open>usage_str = ''usage: ./vigenere [-h] "message" [-m MODE] [-k "KEY"]'' @ [newline]\<close>

definition help_str :: string where
  "help_str =
     [newline] @ ''positional arguments: '' @ [newline] @
     ''      message  specifies the message to encrypt/decrypt (A-Z, a-z).'' @ [newline] @
     ''      -m       encrypt/decrypt the subsequent message. '' @ [newline] @
     ''               (0 = encrypt, 1 = decrypt, 0 = default) '' @ [newline] @
     ''      -k       specifies the keyword to use (variable length, ASCII-only). '' @ [newline] @
     ''    '' @ [newline] @ ''optional arguments: '' @ [newline] @
     ''      -h       displays help message and usage information.'' @ [newline, newline]"

text \<open>
  \<^verbatim>\<open>exit_print_info\<close> writes to the error stream and ends the process with
  \<^verbatim>\<open>EXIT_FAILURE\<close>; its value is the finished run.
\<close>

definition exit_print_info :: "docs \<Rightarrow> run" where
  "exit_print_info type =
     \<lparr>stdout = [],
      stderr = (if type = Usage then usage_str else usage_str @ help_str),
      status = EXIT_FAILURE\<rparr>"

subsection \<open>Encryption and decryption\<close>

text \<open>
  The value computed for one alphabetic character, before the case offset is added:
  the index into the alphabet.
\<close>

definition encrypt_index :: "char \<Rightarrow> char \<Rightarrow> int" where
  "encrypt_index m k = c_rem (toupper (char_val m) + char_val k) CHAR_SPACE"

definition decrypt_index :: "char \<Rightarrow> char \<Rightarrow> int" where
  "decrypt_index m k = c_rem ((toupper (char_val m) - char_val k) + CHAR_SPACE) CHAR_SPACE"

definition case_offset :: "char \<Rightarrow> int" where
  "case_offset m = (if isupper (char_val m) then ASCII_HIGHER_OFFSET else ASCII_LOWER_OFFSET)"

text \<open>The character assigned at an alphabetic index: the index plus the case offset.\<close>

definition encrypt_char :: "char \<Rightarrow> char \<Rightarrow> char" where
  "encrypt_char m k = char_of (encrypt_index m k + case_offset m)"

definition decrypt_char :: "char \<Rightarrow> char \<Rightarrow> char" where
  "decrypt_char m k = char_of (decrypt_index m k + case_offset m)"

text \<open>
  The body of the loop of \<^verbatim>\<open>encrypt\<close> at one index. Each iteration reads and writes
  only its own index, so the loop is a map over the indices \<open>0..<text_len\<close>; the last
  iteration, at \<open>text_len\<close>, copies the terminator, which the list leaves implicit.
  The keystream is read at alphabetic positions only.
\<close>

definition encrypt_at :: "config \<Rightarrow> nat \<Rightarrow> char" where
  "encrypt_at config enc_ctr =
     (if \<not> isalpha (char_val (message config ! enc_ctr)) then message config ! enc_ctr
      else encrypt_char (message config ! enc_ctr) (keystream config ! enc_ctr))"

definition encrypt :: "config \<Rightarrow> config" where
  "encrypt config =
     (let text_len = strlen (message config);
          text_enciphered = map (encrypt_at config) [0..<text_len]
      in config\<lparr>output_str := text_enciphered\<rparr>)"

definition decrypt_at :: "config \<Rightarrow> nat \<Rightarrow> char" where
  "decrypt_at config dec_ctr =
     (if \<not> isalpha (char_val (message config ! dec_ctr)) then message config ! dec_ctr
      else decrypt_char (message config ! dec_ctr) (keystream config ! dec_ctr))"

definition decrypt :: "config \<Rightarrow> config" where
  "decrypt config =
     (let text_len = strlen (message config);
          text_deciphered = map (decrypt_at config) [0..<text_len]
      in config\<lparr>output_str := text_deciphered\<rparr>)"

subsection \<open>The keystream\<close>

text \<open>
  The loop of \<^verbatim>\<open>generate_keystream\<close>, by recursion on the part of the message from
  \<open>key_ctr\<close> on; it ends at the terminator. \<open>key_offset\<close> never exceeds \<open>key_ctr\<close>,
  so the conversion of their difference to \<^verbatim>\<open>size_t\<close> keeps its value. With a key of
  length zero the remainder is undefined: the loop faults at the first alphabetic
  character.
\<close>

fun keystream_loop :: "string \<Rightarrow> string \<Rightarrow> int \<Rightarrow> int \<Rightarrow> fault + string" where
  "keystream_loop k [] key_ctr key_offset = Inr []"
| "keystream_loop k (m # ms) key_ctr key_offset =
     (if \<not> isalpha (char_val m) then
        (case keystream_loop k ms (key_ctr + 1) (key_offset + 1) of
           Inl f \<Rightarrow> Inl f
         | Inr ks \<Rightarrow> Inr (CHR '' '' # ks))
      else if strlen k = 0 then Inl DivisionByZero
      else
        (case keystream_loop k ms (key_ctr + 1) key_offset of
           Inl f \<Rightarrow> Inl f
         | Inr ks \<Rightarrow>
             Inr (char_of (toupper (char_val
                    (k ! nat ((key_ctr - key_offset) mod int (strlen k))))) # ks)))"

definition generate_keystream :: "config \<Rightarrow> fault + config" where
  "generate_keystream config =
     (case keystream_loop (key config) (message config) 0 0 of
        Inl f \<Rightarrow> Inl f
      | Inr new_keystream \<Rightarrow> Inr (config\<lparr>keystream := new_keystream\<rparr>))"

subsection \<open>Arguments and the main function\<close>

text \<open>
  \<^verbatim>\<open>build_config\<close> leaves \<^verbatim>\<open>output\<close> (the field \<open>output_str\<close> here) and
  \<^verbatim>\<open>keystream\<close> uninitialised; they are written before they are read, and empty
  here until then. The mode arrives as an \<^verbatim>\<open>int\<close> and is stored as the enumeration:
  0 is \<^verbatim>\<open>Encrypt\<close>, and \<^verbatim>\<open>main\<close> takes every other value for \<^verbatim>\<open>Decrypt\<close>.
\<close>

definition modes_of_int :: "int \<Rightarrow> modes" where
  "modes_of_int n = (if n = 0 then Encrypt else Decrypt)"

definition build_config :: "int \<Rightarrow> string \<Rightarrow> string \<Rightarrow> config" where
  "build_config opt msg k =
     \<lparr>option = modes_of_int opt, message = msg, output_str = [], key = k, keystream = []\<rparr>"

text \<open>
  \<^verbatim>\<open>parse_args\<close>: \<open>Inl\<close> is the run that ended inside \<^verbatim>\<open>exit_print_info\<close>,
  \<open>Inr\<close> the configuration returned. \<open>argc\<close> is the length of \<open>argv\<close>.
\<close>

definition parse_args :: "string list \<Rightarrow> run + config" where
  "parse_args argv =
     (let argc = length argv in
      if argc < 2 then Inl (exit_print_info Usage)
      else if argc > 1 \<and> strncmp (argv ! 1) ''-h'' (strlen (argv ! 1)) = 0
        then Inl (exit_print_info Help)
      else if strncmp (argv ! 1) [] (strlen (argv ! 1)) = 0
        then Inl (exit_print_info Usage)
      else
        let msg = argv ! 1 in
        if argc > 3 \<and> strncmp (argv ! 2) ''-m'' (strlen (argv ! 2)) = 0 then
          if isdigit (char_val (first_char (argv ! 3))) then
            let opt = c_rem (char_val (first_char (argv ! 3))) 2 in
            if argc > 5 \<and> strncmp (argv ! 4) ''-k'' (strlen (argv ! 4)) = 0
              then Inr (build_config opt msg (argv ! 5))
            else Inl (exit_print_info Usage)
          else Inl (exit_print_info Usage)
        else Inl (exit_print_info Usage))"

text \<open>
  The cipher stage of \<^verbatim>\<open>main\<close>: the keystream, then \<^verbatim>\<open>encrypt\<close> or \<^verbatim>\<open>decrypt\<close>
  by the mode.
\<close>

definition cipher :: "config \<Rightarrow> fault + config" where
  "cipher config =
     (case generate_keystream config of
        Inl f \<Rightarrow> Inl f
      | Inr config' \<Rightarrow>
          Inr (if option config' = Encrypt then encrypt config' else decrypt config'))"

definition main :: "string list \<Rightarrow> fault + run" where
  "main argv =
     (case parse_args argv of
        Inl r \<Rightarrow> Inr r
      | Inr config \<Rightarrow>
          (case cipher config of
             Inl f \<Rightarrow> Inl f
           | Inr config' \<Rightarrow>
               Inr \<lparr>stdout = output_str config' @ [newline], stderr = [],
                    status = EXIT_SUCCESS\<rparr>))"

text \<open>The transform of a message under a key in a mode, as \<^verbatim>\<open>main\<close> runs it.\<close>

definition transform :: "modes \<Rightarrow> string \<Rightarrow> string \<Rightarrow> fault + string" where
  "transform mode msg k =
     (case cipher \<lparr>option = mode, message = msg, output_str = [], key = k, keystream = []\<rparr> of
        Inl f \<Rightarrow> Inl f
      | Inr config \<Rightarrow> Inr (output_str config))"

subsection \<open>The vocabulary of the specification\<close>

text \<open>
  The words the specification uses for characters and positions, defined on the
  library functions above.
\<close>

definition alphabetic :: "char \<Rightarrow> bool" where
  "alphabetic c \<longleftrightarrow> isalpha (char_val c)"

definition uppercase :: "char \<Rightarrow> char" where
  "uppercase c = char_of (toupper (char_val c))"

text \<open>The number of alphabetic characters of a string.\<close>

definition alpha_count :: "string \<Rightarrow> nat" where
  "alpha_count s = length (filter alphabetic s)"

text \<open>The position of the uppercase form of a character in the alphabet, from 0.\<close>

definition alpha_pos :: "char \<Rightarrow> int" where
  "alpha_pos c = toupper (char_val c) - char_val CHR ''A''"

text \<open>The character of the alphabet at a position, in upper or lower case.\<close>

definition alphabet_char :: "bool \<Rightarrow> int \<Rightarrow> char" where
  "alphabet_char upper p =
     (if upper then ''ABCDEFGHIJKLMNOPQRSTUVWXYZ'' else ''abcdefghijklmnopqrstuvwxyz'') ! nat p"

text \<open>The keystream that \<^verbatim>\<open>generate_keystream\<close> stores for a message and a key.\<close>

definition keystream_for :: "string \<Rightarrow> string \<Rightarrow> fault + string" where
  "keystream_for msg k =
     (case generate_keystream
             \<lparr>option = Encrypt, message = msg, output_str = [], key = k, keystream = []\<rparr> of
        Inl f \<Rightarrow> Inl f
      | Inr config \<Rightarrow> Inr (keystream config))"

text \<open>The output character at one index, for a message and a keystream.\<close>

definition cipher_at :: "modes \<Rightarrow> string \<Rightarrow> string \<Rightarrow> nat \<Rightarrow> char" where
  "cipher_at mode msg ks i =
     (if \<not> alphabetic (msg ! i) then msg ! i
      else if mode = Encrypt then encrypt_char (msg ! i) (ks ! i)
      else decrypt_char (msg ! i) (ks ! i))"

text \<open>A well-formed C string has no NUL before its terminator.\<close>

definition c_string :: "string \<Rightarrow> bool" where
  "c_string s \<longleftrightarrow> CHR 0x00 \<notin> set s"

section \<open>Properties\<close>

subsection \<open>Characters and remainders\<close>

lemma ASCII_HIGHER_OFFSET_eq: "ASCII_HIGHER_OFFSET = 65"
  by (simp add: ASCII_HIGHER_OFFSET_def)

lemma ASCII_LOWER_OFFSET_eq: "ASCII_LOWER_OFFSET = 97"
  by (simp add: ASCII_LOWER_OFFSET_def ASCII_HIGHER_OFFSET_eq)

lemma of_char_bounds: "0 \<le> (of_char c :: int) \<and> (of_char c :: int) < 256"
proof -
  have lo: "0 \<le> (of_char c :: int) mod 256"
    by (rule pos_mod_sign) simp
  have hi: "(of_char c :: int) mod 256 < 256"
    by (rule pos_mod_bound) simp
  from lo hi show ?thesis by simp
qed

lemma char_val_bounds: "- 128 \<le> char_val c \<and> char_val c < 128"
  using of_char_bounds [of c] by (simp add: char_val_def)

lemma char_of_char_val: "char_of (char_val c) = c"
proof -
  have "char_of ((of_char c :: int) - 256) = char_of (of_char c :: int)"
    by (simp add: char_of_eq_iff take_bit_eq_mod)
  then show ?thesis by (simp add: char_val_def)
qed

lemma char_val_char_of: "0 \<le> x \<Longrightarrow> x < 128 \<Longrightarrow> char_val (char_of x) = x"
  by (simp add: char_val_def)

lemma c_rem_nonneg: "0 \<le> a \<Longrightarrow> c_rem a CHAR_SPACE = a mod 26"
  by (simp add: c_rem_def CHAR_SPACE_def sgn_if minus_mult_div_eq_mod)

lemma c_rem_neg: "a < 0 \<Longrightarrow> c_rem a CHAR_SPACE = - ((- a) mod 26)"
proof -
  assume "a < 0"
  then have "c_rem a CHAR_SPACE = a + 26 * ((- a) div 26)"
    by (simp add: c_rem_def CHAR_SPACE_def sgn_if)
  also have "\<dots> = - ((- a) - 26 * ((- a) div 26))"
    by simp
  also have "\<dots> = - ((- a) mod 26)"
    by (simp only: minus_mult_div_eq_mod)
  finally show ?thesis .
qed


subsection \<open>The keystream loop\<close>

lemma keystream_loop_total:
  "k \<noteq> [] \<Longrightarrow> \<exists>ks. keystream_loop k ms key_ctr key_offset = Inr ks"
proof (induction ms arbitrary: key_ctr key_offset)
  case Nil
  show ?case by simp
next
  case (Cons m ms)
  from Cons.IH [OF Cons.prems, of "key_ctr + 1" "key_offset + 1"]
  obtain ks1 where ks1: "keystream_loop k ms (key_ctr + 1) (key_offset + 1) = Inr ks1" ..
  from Cons.IH [OF Cons.prems, of "key_ctr + 1" key_offset]
  obtain ks2 where ks2: "keystream_loop k ms (key_ctr + 1) key_offset = Inr ks2" ..
  from Cons.prems ks1 ks2 show ?case
    by (simp add: strlen_def)
qed

lemma keystream_loop_length:
  "keystream_loop k ms key_ctr key_offset = Inr ks \<Longrightarrow> length ks = length ms"
proof (induction ms arbitrary: key_ctr key_offset ks)
  case Nil
  then show ?case by simp
next
  case (Cons m ms)
  then show ?case
    by (auto split: if_splits sum.splits)
qed

lemma keystream_loop_nth:
  assumes "keystream_loop k ms key_ctr key_offset = Inr ks"
    and "key_offset \<le> key_ctr" and "i < length ms"
  shows "ks ! i =
    (if alphabetic (ms ! i)
     then uppercase (k ! ((nat (key_ctr - key_offset) + alpha_count (take i ms)) mod length k))
     else CHR '' '')"
  using assms
proof (induction ms arbitrary: key_ctr key_offset ks i)
  case Nil
  then show ?case by simp
next
  case (Cons m ms)
  show ?case
  proof (cases "alphabetic m")
    case False
    then obtain ks' where
      rest: "keystream_loop k ms (key_ctr + 1) (key_offset + 1) = Inr ks'"
      and ks: "ks = CHR '' '' # ks'"
      using Cons.prems(1) by (auto simp: alphabetic_def split: sum.splits)
    show ?thesis
    proof (cases i)
      case 0
      with False ks show ?thesis by simp
    next
      case (Suc j)
      with Cons.prems(3) have j: "j < length ms" by simp
      from Cons.prems(2) have "key_offset + 1 \<le> key_ctr + 1" by simp
      from Cons.IH [OF rest this j] Suc ks False show ?thesis
        by (simp add: alpha_count_def)
    qed
  next
    case True
    then obtain ks' where
      rest: "keystream_loop k ms (key_ctr + 1) key_offset = Inr ks'"
      and ks: "ks = uppercase (k ! nat ((key_ctr - key_offset) mod int (length k))) # ks'"
      and nonempty: "length k \<noteq> 0"
      using Cons.prems(1)
      by (auto simp: alphabetic_def uppercase_def strlen_def split: sum.splits if_splits)
    show ?thesis
    proof (cases i)
      case 0
      from Cons.prems(2) have "nat ((key_ctr - key_offset) mod int (length k))
          = nat (key_ctr - key_offset) mod length k"
        by (simp add: nat_mod_distrib)
      with 0 True ks show ?thesis by (simp add: alpha_count_def)
    next
      case (Suc j)
      with Cons.prems(3) have j: "j < length ms" by simp
      from Cons.prems(2) have le: "key_offset \<le> key_ctr + 1" by simp
      from Cons.prems(2) have "nat (key_ctr + 1 - key_offset) = Suc (nat (key_ctr - key_offset))"
        by simp
      with Cons.IH [OF rest le j] Suc ks True show ?thesis
        by (simp add: alpha_count_def)
    qed
  qed
qed

lemma keystream_loop_cong:
  "map alphabetic ms = map alphabetic ms' \<Longrightarrow>
   keystream_loop k ms key_ctr key_offset = keystream_loop k ms' key_ctr key_offset"
proof (induction ms arbitrary: ms' key_ctr key_offset)
  case Nil
  then show ?case by simp
next
  case (Cons m ms)
  then obtain m' ms'' where ms': "ms' = m' # ms''" by (cases ms') auto
  with Cons.prems have hd: "alphabetic m' = alphabetic m"
    and tl: "map alphabetic ms = map alphabetic ms''" by simp_all
  from Cons.IH [OF tl] hd ms' show ?case
    by (simp add: alphabetic_def)
qed


subsection \<open>Alphabet positions and single characters\<close>

lemma char_val_A: "char_val CHR ''A'' = 65"
  by (simp add: char_val_def)

lemma alphabet_char_upper_nat:
  "\<forall>n \<in> set [0..<26]. char_of (int n + 65) = alphabet_char True (int n)"
  by code_simp

lemma alphabet_char_lower_nat:
  "\<forall>n \<in> set [0..<26]. char_of (int n + 97) = alphabet_char False (int n)"
  by code_simp

lemma alphabet_char_eq:
  assumes "0 \<le> p" and "p < 26"
  shows "alphabet_char upper p = char_of (p + (if upper then 65 else 97))"
proof -
  from assms have mem: "nat p \<in> set [0..<26]" by simp
  from assms have p: "int (nat p) = p" by simp
  show ?thesis
  proof (cases upper)
    case True
    with alphabet_char_upper_nat mem p show ?thesis by fastforce
  next
    case False
    with alphabet_char_lower_nat mem p show ?thesis by fastforce
  qed
qed

lemma alpha_pos_range: "alphabetic c \<Longrightarrow> 0 \<le> alpha_pos c \<and> alpha_pos c < 26"
  by (auto simp: alphabetic_def alpha_pos_def isalpha_def isupper_def islower_def toupper_def
      char_val_A)

lemma case_offset_eq: "case_offset m = (if isupper (char_val m) then 65 else 97)"
  by (simp add: case_offset_def ASCII_HIGHER_OFFSET_eq ASCII_LOWER_OFFSET_eq)

lemma encrypt_index_eq:
  assumes m: "alphabetic m" and k: "0 \<le> char_val k"
  shows "encrypt_index m k = (alpha_pos m + (char_val k - 65)) mod 26"
proof -
  from alpha_pos_range [OF m] k
  have "0 \<le> toupper (char_val m) + char_val k"
    by (simp add: alpha_pos_def char_val_A)
  then have "encrypt_index m k = (toupper (char_val m) + char_val k) mod 26"
    by (simp add: encrypt_index_def c_rem_nonneg)
  also have "toupper (char_val m) + char_val k = alpha_pos m + (char_val k - 65) + 5 * 26"
    by (simp add: alpha_pos_def char_val_A)
  also have "\<dots> mod 26 = (alpha_pos m + (char_val k - 65)) mod 26"
    by (rule mod_mult_self1 [of _ 5 26, simplified mult.commute [of 26 5]] mod_mult_self2)
  finally show ?thesis .
qed


lemma encrypt_index_range:
  "alphabetic m \<Longrightarrow> 0 \<le> char_val k \<Longrightarrow> 0 \<le> encrypt_index m k \<and> encrypt_index m k < 26"
  by (simp add: encrypt_index_eq)

lemma decrypt_index_eq:
  assumes m: "alphabetic m" and k: "char_val k \<le> 91"
  shows "decrypt_index m k = (alpha_pos m - (char_val k - 65) + 26) mod 26"
proof -
  from alpha_pos_range [OF m] k
  have "0 \<le> toupper (char_val m) - char_val k + 26"
    by (simp add: alpha_pos_def char_val_A)
  then have "c_rem (toupper (char_val m) - char_val k + 26) CHAR_SPACE
      = (toupper (char_val m) - char_val k + 26) mod 26"
    by (rule c_rem_nonneg)
  then have "decrypt_index m k = (toupper (char_val m) - char_val k + 26) mod 26"
    by (simp only: decrypt_index_def CHAR_SPACE_def)
  also have "toupper (char_val m) - char_val k + 26 = alpha_pos m - (char_val k - 65) + 26"
    by (simp add: alpha_pos_def char_val_A)
  finally show ?thesis .
qed

lemma decrypt_index_range:
  "alphabetic m \<Longrightarrow> char_val k \<le> 91 \<Longrightarrow> 0 \<le> decrypt_index m k \<and> decrypt_index m k < 26"
  by (simp add: decrypt_index_eq)

text \<open>An index in 0..25 plus the case offset of \<open>m\<close> is a letter of the case of \<open>m\<close>.\<close>

lemma char_val_letter:
  assumes "0 \<le> p" and "p < 26"
  shows "char_val (char_of (p + case_offset m)) = p + case_offset m"
  using assms by (intro char_val_char_of) (simp_all add: case_offset_eq)

lemma letter_upper:
  assumes "0 \<le> p" and "p < 26" and "isupper (char_val m)"
  shows "isupper (char_val (char_of (p + case_offset m)))"
  using assms by (simp add: char_val_letter) (simp add: case_offset_eq isupper_def)

lemma letter_lower:
  assumes "0 \<le> p" and "p < 26" and "islower (char_val m)"
  shows "islower (char_val (char_of (p + case_offset m)))"
  using assms by (simp add: char_val_letter) (simp add: case_offset_eq isupper_def islower_def)

lemma letter_alphabetic:
  assumes "0 \<le> p" and "p < 26"
  shows "alphabetic (char_of (p + case_offset m))"
  using assms by (simp add: alphabetic_def char_val_letter)
    (simp add: case_offset_eq isalpha_def isupper_def islower_def)

lemma alpha_pos_letter:
  assumes "0 \<le> p" and "p < 26"
  shows "alpha_pos (char_of (p + case_offset m)) = p"
  using assms by (simp add: alpha_pos_def char_val_letter char_val_A)
    (simp add: case_offset_eq toupper_def isupper_def islower_def)

lemma case_offset_letter:
  assumes "0 \<le> p" and "p < 26"
  shows "case_offset (char_of (p + case_offset m)) = case_offset m"
proof (cases "isupper (char_val m)")
  case True
  from letter_upper [OF assms True] True show ?thesis
    by (simp add: case_offset_def)
next
  case False
  from assms have "\<not> isupper (p + case_offset m)"
    using False by (simp add: case_offset_eq isupper_def)
  with False assms show ?thesis
    by (simp add: case_offset_def [of "char_of (p + case_offset m)"] char_val_letter)
      (simp add: case_offset_def)
qed

lemma alpha_pos_case_offset:
  "alphabetic m \<Longrightarrow> char_of (alpha_pos m + case_offset m) = m"
proof -
  assume "alphabetic m"
  then have "alpha_pos m + case_offset m = char_val m"
    by (auto simp: alphabetic_def alpha_pos_def case_offset_eq isalpha_def isupper_def
        islower_def toupper_def char_val_A)
  then show ?thesis by (simp add: char_of_char_val)
qed

lemma shift_back: "((a + b) mod 26 - b + 26) mod 26 = a mod (26::int)"
proof -
  have "((a + b) mod 26 - b + 26) mod 26 = ((a + b) mod 26 - b) mod 26"
    by simp
  also have "\<dots> = (a + b - b) mod 26"
    by (rule mod_diff_left_eq)
  finally show ?thesis by simp
qed

lemma decrypt_encrypt_char:
  assumes m: "alphabetic m" and k0: "0 \<le> char_val k" and k: "char_val k \<le> 91"
  shows "decrypt_char (encrypt_char m k) k = m"
proof -
  let ?e = "encrypt_index m k"
  let ?c = "encrypt_char m k"
  from encrypt_index_range [OF m k0] have e: "0 \<le> ?e" "?e < 26" by simp_all
  have c_alpha: "alphabetic ?c"
    unfolding encrypt_char_def by (rule letter_alphabetic [OF e])
  have c_pos: "alpha_pos ?c = ?e"
    unfolding encrypt_char_def by (rule alpha_pos_letter [OF e])
  have c_off: "case_offset ?c = case_offset m"
    unfolding encrypt_char_def by (rule case_offset_letter [OF e])
  have "decrypt_index ?c k = (?e - (char_val k - 65) + 26) mod 26"
    by (simp add: decrypt_index_eq [OF c_alpha k] c_pos)
  also have "\<dots> = ((alpha_pos m + (char_val k - 65)) mod 26 - (char_val k - 65) + 26) mod 26"
    by (simp add: encrypt_index_eq [OF m k0])
  also have "\<dots> = alpha_pos m mod 26"
    by (rule shift_back)
  also have "\<dots> = alpha_pos m"
    using alpha_pos_range [OF m] by simp
  finally have "decrypt_index ?c k = alpha_pos m" .
  then have "decrypt_char ?c k = char_of (alpha_pos m + case_offset m)"
    by (simp add: decrypt_char_def c_off)
  with alpha_pos_case_offset [OF m] show ?thesis by simp
qed


subsection \<open>The transform as a map over the message\<close>

lemma keystream_for_eq: "keystream_for msg k = keystream_loop k msg 0 0"
  by (simp add: keystream_for_def generate_keystream_def split: sum.splits)

lemma transform_Inr:
  assumes "keystream_loop k msg 0 0 = Inr ks"
  shows "transform mode msg k = Inr (map (cipher_at mode msg ks) [0..<length msg])"
  using assms
  by (simp add: transform_def cipher_def generate_keystream_def encrypt_def decrypt_def
      strlen_def cipher_at_def encrypt_at_def decrypt_at_def encrypt_char_def decrypt_char_def
      alphabetic_def fun_eq_iff)

lemma transform_Inl:
  assumes "keystream_loop k msg 0 0 = Inl f"
  shows "transform mode msg k = Inl f"
  using assms by (simp add: transform_def cipher_def generate_keystream_def)

lemma char_val_uppercase: "char_val (uppercase c) = toupper (char_val c)"
proof (cases "0 \<le> char_val c")
  case True
  with char_val_bounds [of c]
  have "0 \<le> toupper (char_val c) \<and> toupper (char_val c) < 128"
    by (auto simp: toupper_def islower_def)
  then show ?thesis
    by (simp add: uppercase_def char_val_char_of)
next
  case False
  then have "toupper (char_val c) = char_val c"
    by (simp add: toupper_def islower_def)
  then show ?thesis
    by (simp add: uppercase_def char_of_char_val)
qed

lemma alpha_pos_uppercase: "alpha_pos (uppercase c) = toupper (char_val c) - 65"
  by (auto simp: alpha_pos_def char_val_uppercase char_val_A toupper_def islower_def)

lemma alpha_pos_uppercase_range:
  "alphabetic c \<Longrightarrow> 0 \<le> alpha_pos (uppercase c) \<and> alpha_pos (uppercase c) < 26"
  by (auto simp: alpha_pos_uppercase alphabetic_def isalpha_def isupper_def toupper_def
      islower_def)

text \<open>The keystream of a non-empty key, with its length and its characters.\<close>

lemma keystream_facts:
  assumes "k \<noteq> []"
  shows "\<exists>ks. keystream_loop k msg 0 0 = Inr ks \<and> length ks = length msg \<and>
    (\<forall>i<length msg. ks ! i =
       (if alphabetic (msg ! i)
        then uppercase (k ! (alpha_count (take i msg) mod length k)) else CHR '' ''))"
proof -
  from keystream_loop_total [OF assms]
  obtain ks where ks: "keystream_loop k msg 0 0 = Inr ks" ..
  have len: "length ks = length msg"
    by (rule keystream_loop_length [OF ks])
  have nth: "ks ! i = (if alphabetic (msg ! i)
      then uppercase (k ! (alpha_count (take i msg) mod length k)) else CHR '' '')"
    if "i < length msg" for i
    using keystream_loop_nth [OF ks _ that] by simp
  from ks len nth show ?thesis by blast
qed

lemma keystream_bounded:
  assumes "k \<noteq> []" and "\<forall>c\<in>set k. toupper (char_val c) \<le> 91"
  shows "char_val (uppercase (k ! (n mod length k))) \<le> 91"
proof -
  from assms(1) have "k ! (n mod length k) \<in> set k" by simp
  with assms(2) show ?thesis by (simp add: char_val_uppercase)
qed

lemma keystream_nth_bounded:
  assumes k: "k \<noteq> []" and b: "\<forall>c\<in>set k. toupper (char_val c) \<le> 91"
    and ks: "keystream_loop k msg 0 0 = Inr ks" and i: "i < length msg"
    and a: "alphabetic (msg ! i)"
  shows "char_val (ks ! i) \<le> 91"
proof -
  from keystream_loop_nth [OF ks _ i] a
  have "ks ! i = uppercase (k ! (alpha_count (take i msg) mod length k))" by simp
  with keystream_bounded [OF k b] show ?thesis by simp
qed

lemma keystream_nth_nonneg:
  assumes k: "k \<noteq> []" and b: "\<forall>c\<in>set k. 0 \<le> char_val c"
    and ks: "keystream_loop k msg 0 0 = Inr ks" and i: "i < length msg"
    and a: "alphabetic (msg ! i)"
  shows "0 \<le> char_val (ks ! i)"
proof -
  from keystream_loop_nth [OF ks _ i] a
  have "ks ! i = uppercase (k ! (alpha_count (take i msg) mod length k))" by simp
  moreover from k b have "0 \<le> char_val (k ! (alpha_count (take i msg) mod length k))"
    by simp
  ultimately show ?thesis
    by (simp add: char_val_uppercase toupper_def islower_def)
qed

lemma keystream_nth_letter:
  assumes k: "k \<noteq> []" and ks: "keystream_loop k msg 0 0 = Inr ks" and i: "i < length msg"
    and a: "alphabetic (msg ! i)"
  shows "\<exists>c\<in>set k. ks ! i = uppercase c"
proof -
  from keystream_loop_nth [OF ks _ i] a
  have "ks ! i = uppercase (k ! (alpha_count (take i msg) mod length k))" by simp
  moreover from k have "k ! (alpha_count (take i msg) mod length k) \<in> set k" by simp
  ultimately show ?thesis by blast
qed

lemma alpha_pos_keystream: "alpha_pos (uppercase c) = char_val (uppercase c) - 65"
  by (simp add: alpha_pos_uppercase char_val_uppercase)

lemma cipher_at_letter:
  assumes "alphabetic (msg ! i)" and "mode = Encrypt \<longrightarrow> 0 \<le> char_val (ks ! i)"
    and "mode = Decrypt \<longrightarrow> char_val (ks ! i) \<le> 91"
  shows "\<exists>p. 0 \<le> p \<and> p < 26 \<and> cipher_at mode msg ks i = char_of (p + case_offset (msg ! i))"
proof (cases mode)
  case Encrypt
  with assms have "0 \<le> char_val (ks ! i)" by simp
  from encrypt_index_range [OF assms(1) this] Encrypt assms(1) show ?thesis
    by (auto simp: cipher_at_def encrypt_char_def)
next
  case Decrypt
  with assms have "char_val (ks ! i) \<le> 91" by simp
  from decrypt_index_range [OF assms(1) this] Decrypt assms(1) show ?thesis
    by (auto simp: cipher_at_def decrypt_char_def)
qed

subsection \<open>Argument parsing\<close>

lemma parse_args_exits:
  assumes "parse_args argv = Inl r"
  shows "r = exit_print_info Usage \<or> r = exit_print_info Help"
  using assms by (auto simp: parse_args_def Let_def split: if_splits)

lemma exit_print_info_run:
  "status (exit_print_info t) = EXIT_FAILURE \<and> stdout (exit_print_info t) = [] \<and>
   prefix usage_str (stderr (exit_print_info t))"
  by (simp add: exit_print_info_def)

lemma main_exits: "parse_args argv = Inl r \<Longrightarrow> main argv = Inr r"
  by (simp add: main_def)

lemma uchar_val_eq_0: "uchar_val a = 0 \<longleftrightarrow> a = CHR 0x00"
proof -
  have "uchar_val a = uchar_val CHR 0x00 \<longleftrightarrow> a = CHR 0x00"
    by (simp only: uchar_val_def of_char_eq_iff)
  then show ?thesis by (simp add: uchar_val_def)
qed

lemma uchar_val_inj: "uchar_val a = uchar_val b \<longleftrightarrow> a = b"
  by (simp add: uchar_val_def)

lemma strncmp_self_prefix:
  "c_string s \<Longrightarrow> strncmp s t (strlen s) = 0 \<longleftrightarrow> prefix s t"
proof (induction s arbitrary: t)
  case Nil
  show ?case by (simp add: strlen_def)
next
  case (Cons a s)
  from Cons.prems have a: "uchar_val a \<noteq> 0" and s: "c_string s"
    by (auto simp: c_string_def uchar_val_eq_0)
  show ?case
  proof (cases t)
    case Nil
    with a show ?thesis by (simp add: strlen_def)
  next
    case (Cons b t')
    with Cons.IH [OF s, of t'] show ?thesis
      by (simp add: strlen_def uchar_val_inj)
  qed
qed

lemma c_rem_2: "0 \<le> a \<Longrightarrow> c_rem a 2 = a mod 2"
  by (simp add: c_rem_def sgn_if minus_mult_div_eq_mod)

subsection \<open>Keys within the reach of the guard of decrypt\<close>

text \<open>
  \<^verbatim>\<open>decrypt\<close> adds \<^verbatim>\<open>CHAR_SPACE\<close> once before it takes the remainder. That keeps
  the operand from going negative as long as the keystream character has a code of at
  most 91, which every letter has. For such keys of ASCII characters the two
  directions are inverse, the index of \<^verbatim>\<open>decrypt\<close> is an alphabet position, and
  the case of a letter is kept.
\<close>

lemma round_trip_within_guard:
  assumes "k \<noteq> []" and "\<forall>c\<in>set k. 0 \<le> char_val c"
    and "\<forall>c\<in>set k. toupper (char_val c) \<le> 91"
  shows "\<exists>c. transform Encrypt msg k = Inr c \<and> transform Decrypt c k = Inr msg"
proof -
  from keystream_loop_total [OF assms(1), of msg 0 0]
  obtain ks where ks: "keystream_loop k msg 0 0 = Inr ks" ..
  let ?c = "map (cipher_at Encrypt msg ks) [0..<length msg]"
  have enc: "transform Encrypt msg k = Inr ?c"
    by (rule transform_Inr [OF ks])
  have len: "length ?c = length msg" by simp
  have c_nth: "?c ! i = cipher_at Encrypt msg ks i" if "i < length msg" for i
    using that by simp
  have same_letters: "alphabetic (cipher_at Encrypt msg ks i) = alphabetic (msg ! i)"
    if i: "i < length msg" for i
  proof (cases "alphabetic (msg ! i)")
    case True
    have "0 \<le> char_val (ks ! i)"
      by (rule keystream_nth_nonneg [OF assms(1,2) ks i True])
    with cipher_at_letter [OF True, of Encrypt ks]
    obtain p where "0 \<le> p" "p < 26"
      and "cipher_at Encrypt msg ks i = char_of (p + case_offset (msg ! i))" by auto
    with letter_alphabetic [of p "msg ! i"] True i show ?thesis by simp
  next
    case False
    with i show ?thesis by (simp add: cipher_at_def)
  qed
  have "map alphabetic ?c = map alphabetic msg"
    by (rule nth_equalityI) (simp_all add: same_letters del: map_map)
  then have ks': "keystream_loop k ?c 0 0 = Inr ks"
    using ks by (simp only: keystream_loop_cong [of ?c msg])
  have restored: "cipher_at Decrypt ?c ks i = msg ! i" if i: "i < length msg" for i
  proof (cases "alphabetic (msg ! i)")
    case True
    from same_letters [OF i] True have c_alpha: "alphabetic (cipher_at Encrypt msg ks i)"
      by simp
    from True have c_eq: "cipher_at Encrypt msg ks i = encrypt_char (msg ! i) (ks ! i)"
      by (simp add: cipher_at_def)
    have lo: "0 \<le> char_val (ks ! i)"
      by (rule keystream_nth_nonneg [OF assms(1,2) ks i True])
    have hi: "char_val (ks ! i) \<le> 91"
      by (rule keystream_nth_bounded [OF assms(1,3) ks i True])
    from decrypt_encrypt_char [OF True lo hi] c_alpha c_eq c_nth [OF i] show ?thesis
      by (simp add: cipher_at_def [of Decrypt])
  next
    case False
    with c_nth [OF i] show ?thesis by (simp add: cipher_at_def)
  qed
  have "map (cipher_at Decrypt ?c ks) [0..<length ?c] = msg"
    by (rule nth_equalityI) (simp_all add: restored del: map_map)
  with transform_Inr [OF ks', of Decrypt] have "transform Decrypt ?c k = Inr msg"
    by simp
  with enc show ?thesis by blast
qed

lemma decrypt_index_within_guard:
  assumes "k \<noteq> []" and "\<forall>c\<in>set k. toupper (char_val c) \<le> 91"
    and "i < length msg" and "alphabetic (msg ! i)"
  shows "\<exists>ks out. keystream_for msg k = Inr ks \<and> transform Decrypt msg k = Inr out \<and>
      decrypt_index (msg ! i) (ks ! i)
        = (alpha_pos (msg ! i) - alpha_pos (ks ! i) + 26) mod 26 \<and>
      0 \<le> decrypt_index (msg ! i) (ks ! i) \<and> decrypt_index (msg ! i) (ks ! i) < 26 \<and>
      out ! i = alphabet_char (isupper (char_val (msg ! i)))
                  (decrypt_index (msg ! i) (ks ! i)) \<and>
      ((\<forall>c\<in>set k. alphabetic c) \<longrightarrow> 0 \<le> alpha_pos (ks ! i) \<and> alpha_pos (ks ! i) < 26)"
proof -
  from keystream_loop_total [OF assms(1), of msg 0 0]
  obtain ks where ks: "keystream_loop k msg 0 0 = Inr ks" ..
  let ?out = "map (cipher_at Decrypt msg ks) [0..<length msg]"
  let ?d = "decrypt_index (msg ! i) (ks ! i)"
  have out: "transform Decrypt msg k = Inr ?out"
    by (rule transform_Inr [OF ks])
  from keystream_nth_letter [OF assms(1) ks assms(3,4)]
  obtain c where c: "c \<in> set k" "ks ! i = uppercase c" by blast
  have bound: "char_val (ks ! i) \<le> 91"
    by (rule keystream_nth_bounded [OF assms(1,2) ks assms(3,4)])
  have "alpha_pos (ks ! i) = char_val (ks ! i) - 65"
    using c by (simp only: alpha_pos_keystream)
  with decrypt_index_eq [OF assms(4) bound]
  have idx: "?d = (alpha_pos (msg ! i) - alpha_pos (ks ! i) + 26) mod 26"
    by (simp only:)
  have range: "0 \<le> ?d \<and> ?d < 26"
    by (rule decrypt_index_range [OF assms(4) bound])
  have "?out ! i = char_of (?d + case_offset (msg ! i))"
    using assms(3,4) by (simp add: cipher_at_def decrypt_char_def)
  also have "\<dots> = alphabet_char (isupper (char_val (msg ! i))) ?d"
    using range by (simp add: alphabet_char_eq case_offset_eq)
  finally have nth: "?out ! i = alphabet_char (isupper (char_val (msg ! i))) ?d" .
  have kpos: "0 \<le> alpha_pos (ks ! i) \<and> alpha_pos (ks ! i) < 26" if "\<forall>c\<in>set k. alphabetic c"
    using that c alpha_pos_uppercase_range [of c] by simp
  from ks out idx range nth kpos show ?thesis
    by (simp add: keystream_for_eq)
qed

lemma case_kept_within_guard:
  assumes "k \<noteq> []"
    and "mode = Decrypt \<longrightarrow> (\<forall>c\<in>set k. toupper (char_val c) \<le> 91)"
    and "i < length msg" and "alphabetic (msg ! i)"
    and "mode = Encrypt \<longrightarrow> (\<forall>c\<in>set k. 0 \<le> char_val c)"
  shows "\<exists>out. transform mode msg k = Inr out \<and> length out = length msg \<and>
      alphabetic (out ! i) \<and>
      isupper (char_val (out ! i)) = isupper (char_val (msg ! i)) \<and>
      islower (char_val (out ! i)) = islower (char_val (msg ! i))"
proof -
  from keystream_loop_total [OF assms(1), of msg 0 0]
  obtain ks where ks: "keystream_loop k msg 0 0 = Inr ks" ..
  let ?out = "map (cipher_at mode msg ks) [0..<length msg]"
  have out: "transform mode msg k = Inr ?out"
    by (rule transform_Inr [OF ks])
  have hi: "mode = Decrypt \<longrightarrow> char_val (ks ! i) \<le> 91"
    using keystream_nth_bounded [OF assms(1) _ ks assms(3,4)] assms(2) by blast
  have lo: "mode = Encrypt \<longrightarrow> 0 \<le> char_val (ks ! i)"
    using keystream_nth_nonneg [OF assms(1) _ ks assms(3,4)] assms(5) by blast
  from cipher_at_letter [OF assms(4) lo hi]
  obtain p where p: "0 \<le> p" "p < 26"
    and c: "cipher_at mode msg ks i = char_of (p + case_offset (msg ! i))" by blast
  have val: "char_val (?out ! i) = p + case_offset (msg ! i)"
    using assms(3) c char_val_letter [OF p, of "msg ! i"] by simp
  from assms(4) have "isupper (char_val (msg ! i)) \<or> islower (char_val (msg ! i))"
    by (simp add: alphabetic_def isalpha_def)
  with p val have "alphabetic (?out ! i) \<and>
      isupper (char_val (?out ! i)) = isupper (char_val (msg ! i)) \<and>
      islower (char_val (?out ! i)) = islower (char_val (msg ! i))"
    by (auto simp: alphabetic_def isalpha_def case_offset_eq isupper_def islower_def)
  with out show ?thesis by simp
qed

section \<open>The claims\<close>

subsection \<open>The round trip\<close>

text \<open>
  Claim C1 says that decrypting the encryption of a message returns the message for
  every non-empty key. The program does not do so for every key it accepts: under the
  one-character key \<open>~\<close> (code 126) the message B is encrypted to K, and K is
  decrypted to an opening parenthesis. \<^verbatim>\<open>decrypt\<close> computes
  \<open>(75 - 126 + 26) % 26 = -25\<close>, since one added \<^verbatim>\<open>CHAR_SPACE\<close> does not make
  the operand non-negative and the remainder of C keeps the sign of the operand.
\<close>

theorem tilde_key_breaks_round_trip:
  "transform Encrypt ''B'' ''~'' = Inr ''K'' \<and> transform Decrypt ''K'' ''~'' = Inr ''('' \<and>
   ''('' \<noteq> ''B''"
  by code_simp

subsection \<open>The keystream\<close>

text \<open>
  Claim C2. For every message and every non-empty key, \<^verbatim>\<open>generate_keystream\<close>
  returns a keystream as long as the message. At an index where the message is
  alphabetic the keystream holds the uppercase form of the key character at position
  \<open>j mod length k\<close>, where \<open>j\<close> is the number of alphabetic message characters
  strictly before the index; at any other index it holds a space, which is not
  alphabetic, so such positions consume no key character. For the key KEY and the
  message HELLO WORLD the keystream is KEYKE YKEYK.
\<close>

theorem keystream_cycles_over_letters:
  assumes "k \<noteq> []"
  shows "\<exists>ks. keystream_for msg k = Inr ks \<and> length ks = length msg \<and>
      (\<forall>i<length msg.
         (alphabetic (msg ! i) \<longrightarrow>
            ks ! i = uppercase (k ! (alpha_count (take i msg) mod length k))) \<and>
         (\<not> alphabetic (msg ! i) \<longrightarrow> ks ! i = CHR '' '' \<and> \<not> alphabetic (ks ! i))) \<and>
      keystream_for ''HELLO WORLD'' ''KEY'' = Inr ''KEYKE YKEYK''"
proof -
  have space: "\<not> alphabetic CHR '' ''"
    by (simp add: alphabetic_def char_val_def isalpha_def isupper_def islower_def)
  have example: "keystream_for ''HELLO WORLD'' ''KEY'' = Inr ''KEYKE YKEYK''"
    by code_simp
  from keystream_facts [OF assms, of msg]
  obtain ks where "keystream_loop k msg 0 0 = Inr ks" "length ks = length msg"
    and "\<forall>i<length msg. ks ! i =
       (if alphabetic (msg ! i)
        then uppercase (k ! (alpha_count (take i msg) mod length k)) else CHR '' '')"
    by blast
  with space example show ?thesis
    by (simp add: keystream_for_eq)
qed

theorem keystream_cycles_over_letters_witness:
  "\<exists>ks. keystream_for ''A B'' ''xy'' = Inr ks \<and> length ks = 3 \<and> ks ! 0 = CHR ''X'' \<and>
     ks ! 1 = CHR '' '' \<and> ks ! 2 = CHR ''Y''"
proof -
  have key: "''xy'' \<noteq> []" by simp
  have a0: "alphabetic (''A B'' ! 0)" and a1: "\<not> alphabetic (''A B'' ! 1)"
    and a2: "alphabetic (''A B'' ! 2)"
    by (simp_all add: alphabetic_def char_val_def isalpha_def isupper_def islower_def)
  have u0: "uppercase (''xy'' ! (alpha_count (take 0 ''A B'') mod length ''xy'')) = CHR ''X''"
    and u2: "uppercase (''xy'' ! (alpha_count (take 2 ''A B'') mod length ''xy'')) = CHR ''Y''"
    by code_simp+
  from keystream_cycles_over_letters [OF key, of "''A B''"]
  obtain ks where ks: "keystream_for ''A B'' ''xy'' = Inr ks" "length ks = length ''A B''"
    and nth: "\<forall>i<length ''A B''.
         (alphabetic (''A B'' ! i) \<longrightarrow>
            ks ! i = uppercase (''xy'' ! (alpha_count (take i ''A B'') mod length ''xy''))) \<and>
         (\<not> alphabetic (''A B'' ! i) \<longrightarrow> ks ! i = CHR '' '' \<and> \<not> alphabetic (ks ! i))"
    by blast
  from nth a0 u0 have "ks ! 0 = CHR ''X''" by simp
  moreover from nth a1 have "ks ! 1 = CHR '' ''" by simp
  moreover from nth a2 u2 have "ks ! 2 = CHR ''Y''" by simp
  ultimately show ?thesis using ks by simp
qed

subsection \<open>The shifts\<close>

text \<open>
  Claim C3. For every message, every non-empty alphabetic key and every index where
  the message is alphabetic, the encrypted character is the alphabet character, in the
  case of the message character, at position \<open>(m + k) mod 26\<close>, where \<open>m\<close> and
  \<open>k\<close> are the positions, both in 0..25, of the message character and of the
  keystream character. Encrypting HELLO under KEY gives RIJVS.
\<close>

theorem encrypt_adds_positions:
  assumes "k \<noteq> []" and "\<forall>c\<in>set k. alphabetic c"
    and "i < length msg" and "alphabetic (msg ! i)"
  shows "\<exists>ks out. keystream_for msg k = Inr ks \<and> transform Encrypt msg k = Inr out \<and>
      0 \<le> alpha_pos (msg ! i) \<and> alpha_pos (msg ! i) < 26 \<and>
      0 \<le> alpha_pos (ks ! i) \<and> alpha_pos (ks ! i) < 26 \<and>
      out ! i = alphabet_char (isupper (char_val (msg ! i)))
                  ((alpha_pos (msg ! i) + alpha_pos (ks ! i)) mod 26) \<and>
      transform Encrypt ''HELLO'' ''KEY'' = Inr ''RIJVS''"
proof -
  have example: "transform Encrypt ''HELLO'' ''KEY'' = Inr ''RIJVS''"
    by code_simp
  from keystream_loop_total [OF assms(1), of msg 0 0]
  obtain ks where ks: "keystream_loop k msg 0 0 = Inr ks" ..
  let ?out = "map (cipher_at Encrypt msg ks) [0..<length msg]"
  have out: "transform Encrypt msg k = Inr ?out"
    by (rule transform_Inr [OF ks])
  from keystream_nth_letter [OF assms(1) ks assms(3,4)]
  obtain c where c: "c \<in> set k" "ks ! i = uppercase c" by blast
  with assms(2) have "alphabetic c" by simp
  from alpha_pos_uppercase_range [OF this] c
  have kpos: "0 \<le> alpha_pos (ks ! i) \<and> alpha_pos (ks ! i) < 26" by simp
  have mpos: "0 \<le> alpha_pos (msg ! i) \<and> alpha_pos (msg ! i) < 26"
    by (rule alpha_pos_range [OF assms(4)])
  let ?p = "(alpha_pos (msg ! i) + alpha_pos (ks ! i)) mod 26"
  have k0: "0 \<le> char_val (ks ! i)"
    using kpos c by (simp add: alpha_pos_keystream)
  have "alpha_pos (ks ! i) = char_val (ks ! i) - 65"
    using c by (simp only: alpha_pos_keystream)
  with encrypt_index_eq [OF assms(4) k0]
  have idx: "encrypt_index (msg ! i) (ks ! i) = ?p"
    by (simp only:)
  have "?out ! i = char_of (?p + case_offset (msg ! i))"
    using assms(3,4) idx by (simp add: cipher_at_def encrypt_char_def)
  also have "\<dots> = alphabet_char (isupper (char_val (msg ! i))) ?p"
    by (simp add: alphabet_char_eq case_offset_eq)
  finally have "?out ! i = alphabet_char (isupper (char_val (msg ! i))) ?p" .
  with ks out kpos mpos example show ?thesis
    by (simp add: keystream_for_eq)
qed

theorem encrypt_adds_positions_witness:
  "\<exists>ks out. keystream_for ''Hi'' ''ab'' = Inr ks \<and> transform Encrypt ''Hi'' ''ab'' = Inr out \<and>
     out ! 1 = alphabet_char (isupper (char_val (''Hi'' ! 1)))
                 ((alpha_pos (''Hi'' ! 1) + alpha_pos (ks ! 1)) mod 26)"
proof -
  have key: "''ab'' \<noteq> []" by simp
  have letters: "\<forall>c\<in>set ''ab''. alphabetic c"
    by (simp add: alphabetic_def isalpha_def isupper_def islower_def char_val_def)
  have i: "1 < length ''Hi''" by simp
  have a: "alphabetic (''Hi'' ! 1)"
    by (simp add: alphabetic_def isalpha_def isupper_def islower_def char_val_def)
  from encrypt_adds_positions [OF key letters i a] show ?thesis by blast
qed

text \<open>
  Claim C4 says that the value \<^verbatim>\<open>decrypt\<close> uses as the alphabet index is never
  negative, for every non-empty key. The program computes a negative index under the
  key \<open>~\<close>: for the message A the index is \<open>(65 - 126 + 26) % 26 = -9\<close>, and
  the character stored is the digit 8, not a letter.
\<close>

theorem tilde_key_negative_index:
  "keystream_for ''A'' ''~'' = Inr ''~'' \<and> decrypt_index (''A'' ! 0) (''~'' ! 0) = - 9 \<and>
   decrypt_index (''A'' ! 0) (''~'' ! 0) < 0 \<and> transform Decrypt ''A'' ''~'' = Inr ''8''"
  by code_simp

subsection \<open>The command line\<close>

text \<open>
  Claim C5 says that an empty key is rejected with an error before the keystream is
  generated. The program has no such check: \<^verbatim>\<open>parse_args\<close> accepts the empty key
  and \<^verbatim>\<open>generate_keystream\<close> runs with it. For the message 123 the program prints
  the message and succeeds; for the message A it takes a remainder by the key length
  zero.
\<close>

theorem empty_key_is_not_rejected:
  "main [''./vigenere'', ''123'', ''-m'', ''0'', ''-k'', '''']
     = Inr \<lparr>stdout = ''123'' @ [newline], stderr = [], status = EXIT_SUCCESS\<rparr> \<and>
   main [''./vigenere'', ''A'', ''-m'', ''0'', ''-k'', ''''] = Inl DivisionByZero"
  by code_simp

text \<open>
  Claim C6 says that \<^verbatim>\<open>-m\<close> may be left out. The program requires it as the
  second argument: without it, \<^verbatim>\<open>parse_args\<close> prints the usage line and exits with
  status 1, and nothing is encrypted.
\<close>

theorem missing_mode_flag_is_usage_error:
  "main [''./vigenere'', ''HELLO'', ''-k'', ''KEY'']
     = Inr \<lparr>stdout = [], stderr = usage_str, status = EXIT_FAILURE\<rparr>"
  by code_simp

text \<open>
  Claim C7, as amended. For every invocation in which \<^verbatim>\<open>-m\<close> is the second
  argument and its value is missing or does not begin with a decimal digit, the
  program writes nothing to the standard output, writes the usage line first on the
  standard error, and exits with status 1.
\<close>

theorem non_digit_mode_is_usage_error:
  assumes "rest = [] \<or> \<not> isdigit (char_val (first_char (hd rest)))"
  shows "\<exists>r. main (prog # msg # ''-m'' # rest) = Inr r \<and> status r = EXIT_FAILURE \<and>
      stdout r = [] \<and> prefix usage_str (stderr r)"
proof -
  let ?argv = "prog # msg # ''-m'' # rest"
  have "\<exists>r. parse_args ?argv = Inl r"
  proof (cases rest)
    case Nil
    then show ?thesis by (simp add: parse_args_def Let_def)
  next
    case (Cons v vs)
    with assms have "\<not> isdigit (char_val (first_char v))" by simp
    with Cons show ?thesis by (simp add: parse_args_def Let_def)
  qed
  then obtain r where r: "parse_args ?argv = Inl r" ..
  from parse_args_exits [OF r] exit_print_info_run
  have "status r = EXIT_FAILURE \<and> stdout r = [] \<and> prefix usage_str (stderr r)"
    by auto
  with main_exits [OF r] show ?thesis by blast
qed

theorem non_digit_mode_is_usage_error_witness:
  "(\<exists>r. main [''./vigenere'', ''HELLO'', ''-m'', ''x'', ''-k'', ''KEY''] = Inr r \<and>
      status r = EXIT_FAILURE \<and> stdout r = [] \<and> prefix usage_str (stderr r)) \<and>
   (\<exists>r. main [''./vigenere'', ''HELLO'', ''-m''] = Inr r \<and>
      status r = EXIT_FAILURE \<and> stdout r = [] \<and> prefix usage_str (stderr r))"
proof -
  have malformed: "[''x'', ''-k'', ''KEY''] = [] \<or>
      \<not> isdigit (char_val (first_char (hd [''x'', ''-k'', ''KEY''])))"
    by (simp add: isdigit_def char_val_def first_char_def)
  have missing: "([] :: string list) = [] \<or> \<not> isdigit (char_val (first_char (hd [])))"
    by simp
  from non_digit_mode_is_usage_error [OF malformed] non_digit_mode_is_usage_error [OF missing]
  show ?thesis by blast
qed

text \<open>
  Claim C7 as stated, for every value other than 0 and 1, fails: the value 2 begins
  with a digit, so the program encrypts and exits with status 0.
\<close>

theorem mode_two_is_accepted:
  "''2'' \<noteq> ''0'' \<and> ''2'' \<noteq> ''1'' \<and>
   main [''./vigenere'', ''HELLO'', ''-m'', ''2'', ''-k'', ''KEY'']
     = Inr \<lparr>stdout = ''RIJVS'' @ [newline], stderr = [], status = EXIT_SUCCESS\<rparr> \<and>
   EXIT_SUCCESS \<noteq> (1::int)"
  by code_simp

subsection \<open>What the transform preserves\<close>

text \<open>
  Claim C8. For every message, every key and both modes, the output the transform
  produces is as long as the message and equals the message at every index where the
  message is not alphabetic; with a non-empty key the transform always produces an
  output.
\<close>

theorem non_alphabetic_passes_through:
  "(k \<noteq> [] \<longrightarrow> (\<exists>out. transform mode msg k = Inr out)) \<and>
   (\<forall>out. transform mode msg k = Inr out \<longrightarrow>
      length out = length msg \<and>
      (\<forall>i<length msg. \<not> alphabetic (msg ! i) \<longrightarrow> out ! i = msg ! i))"
proof (intro conjI impI allI)
  assume "k \<noteq> []"
  from keystream_loop_total [OF this, of msg 0 0] show "\<exists>out. transform mode msg k = Inr out"
    by (auto simp: transform_Inr)
next
  fix out
  assume out: "transform mode msg k = Inr out"
  then obtain ks where ks: "keystream_loop k msg 0 0 = Inr ks"
    by (cases "keystream_loop k msg 0 0") (simp_all add: transform_Inl)
  from out have eq: "out = map (cipher_at mode msg ks) [0..<length msg]"
    by (simp add: transform_Inr [OF ks])
  then show "length out = length msg" by simp
  fix i
  assume "i < length msg" and "\<not> alphabetic (msg ! i)"
  with eq show "out ! i = msg ! i" by (simp add: cipher_at_def)
qed

theorem non_alphabetic_passes_through_witness:
  "transform Encrypt ''Hello, World!'' ''key'' = Inr ''Rijvs, Uyvjn!'' \<and>
   ''Rijvs, Uyvjn!'' ! 5 = ''Hello, World!'' ! 5 \<and>
   (\<exists>out. transform Decrypt ''a-b'' ''k'' = Inr out \<and> out ! 1 = CHR ''-'')"
proof -
  have enc: "transform Encrypt ''Hello, World!'' ''key'' = Inr ''Rijvs, Uyvjn!''"
    by code_simp
  have comma: "\<not> alphabetic (''Hello, World!'' ! 5)" and dash: "\<not> alphabetic (''a-b'' ! 1)"
    by (simp_all add: alphabetic_def char_val_def isalpha_def isupper_def islower_def)
  from non_alphabetic_passes_through [of "''key''" Encrypt "''Hello, World!''"] enc comma
  have "''Rijvs, Uyvjn!'' ! 5 = ''Hello, World!'' ! 5" by simp
  moreover
  from non_alphabetic_passes_through [of "''k''" Decrypt "''a-b''"]
  obtain out where out: "transform Decrypt ''a-b'' ''k'' = Inr out" by auto
  with non_alphabetic_passes_through [of "''k''" Decrypt "''a-b''"] dash
  have "out ! 1 = ''a-b'' ! 1" by simp
  ultimately show ?thesis using enc out by simp
qed

text \<open>
  Claim C9 says that the output letter has the case of the message letter, for every
  non-empty key and both modes. The program does not keep the case in Decrypt mode
  under the key \<open>~\<close>: the lowercase message a is decrypted to the uppercase X,
  since the negative index \<open>-9\<close> is added to the code of the lowercase a.
\<close>

theorem tilde_key_changes_case:
  "transform Decrypt ''a'' ''~'' = Inr ''X'' \<and> islower (char_val (''a'' ! 0)) \<and>
   \<not> islower (char_val (''X'' ! 0))"
  by code_simp

subsection \<open>The mode argument\<close>

text \<open>
  Claim C10, as amended. For every invocation \<^verbatim>\<open>prog MESSAGE -m V -k KEY\<close> whose
  message is not empty and is neither \<^verbatim>\<open>-\<close> nor \<^verbatim>\<open>-h\<close> (it is a C string that
  is not a prefix of \<^verbatim>\<open>-h\<close>) and whose value \<open>V\<close> begins with a decimal digit,
  parsing succeeds; the mode is Encrypt when the code of that digit is even and
  Decrypt when it is odd, and nothing of \<open>V\<close> after its first character is read.
\<close>

theorem mode_by_parity_of_first_digit:
  assumes "c_string msg" and "\<not> prefix msg ''-h''"
    and "isdigit (char_val (first_char v))"
  shows "parse_args [prog, msg, ''-m'', v, ''-k'', k]
    = Inr \<lparr>option = (if even (char_val (first_char v)) then Encrypt else Decrypt),
           message = msg, output_str = [], key = k, keystream = []\<rparr>"
proof -
  from assms(2) have nonempty: "msg \<noteq> []" by auto
  from assms(1,2) have h: "strncmp msg ''-h'' (strlen msg) \<noteq> 0"
    by (simp add: strncmp_self_prefix)
  from assms(1) nonempty have e: "strncmp msg [] (strlen msg) \<noteq> 0"
    by (simp add: strncmp_self_prefix)
  from assms(3) have "0 \<le> char_val (first_char v)" by (simp add: isdigit_def)
  then have "c_rem (char_val (first_char v)) 2 = char_val (first_char v) mod 2"
    by (rule c_rem_2)
  then have m: "modes_of_int (c_rem (char_val (first_char v)) 2)
      = (if even (char_val (first_char v)) then Encrypt else Decrypt)"
    by (auto simp: modes_of_int_def even_iff_mod_2_eq_zero)
  have m': "strncmp ''-m'' ''-m'' (strlen ''-m'') = 0" and k': "strncmp ''-k'' ''-k'' (strlen ''-k'') = 0"
    by (simp_all add: strlen_def)
  from h e m m' k' assms(3) show ?thesis
    by (simp add: parse_args_def Let_def build_config_def)
qed

theorem mode_by_parity_of_first_digit_witness:
  "parse_args [''./vigenere'', ''HELLO'', ''-m'', ''2'', ''-k'', ''KEY'']
     = Inr \<lparr>option = Encrypt, message = ''HELLO'', output_str = [], key = ''KEY'',
            keystream = []\<rparr> \<and>
   parse_args [''./vigenere'', ''RIJVS'', ''-m'', ''37'', ''-k'', ''KEY'']
     = Inr \<lparr>option = Decrypt, message = ''RIJVS'', output_str = [], key = ''KEY'',
            keystream = []\<rparr>"
proof -
  have wellformed: "c_string ''HELLO''" "c_string ''RIJVS''"
    by (simp_all add: c_string_def)
  have msg: "\<not> prefix ''HELLO'' ''-h''" "\<not> prefix ''RIJVS'' ''-h''"
    by simp_all
  have digit: "isdigit (char_val (first_char ''2''))" "isdigit (char_val (first_char ''37''))"
    by (simp_all add: isdigit_def char_val_def first_char_def)
  have parity: "even (char_val (first_char ''2''))" "\<not> even (char_val (first_char ''37''))"
    by (simp_all add: char_val_def first_char_def)
  from mode_by_parity_of_first_digit [OF wellformed(1) msg(1) digit(1)]
    mode_by_parity_of_first_digit [OF wellformed(2) msg(2) digit(2)] parity
  show ?thesis by simp
qed

text \<open>
  Claim C10 as stated, for every message, fails: with the message \<^verbatim>\<open>-\<close>, or with
  the empty message, the first test of \<^verbatim>\<open>parse_args\<close> compares no more than the
  length of the message with \<^verbatim>\<open>-h\<close> and finds them equal, so the program prints
  the help text and exits with status 1 although the value of \<^verbatim>\<open>-m\<close> is a digit.
\<close>

theorem dash_message_is_help:
  "isdigit (char_val (first_char ''0'')) \<and>
   parse_args [''./vigenere'', ''-'', ''-m'', ''0'', ''-k'', ''KEY'']
     = Inl (exit_print_info Help) \<and>
   parse_args [''./vigenere'', '''', ''-m'', ''0'', ''-k'', ''KEY'']
     = Inl (exit_print_info Help) \<and>
   main [''./vigenere'', ''-'', ''-m'', ''0'', ''-k'', ''KEY'']
     = Inr \<lparr>stdout = [], stderr = usage_str @ help_str, status = EXIT_FAILURE\<rparr>"
  by code_simp

end
